theory Spec2Isabelle
  imports Main "HOL-Library.Word" "HOL-Library.Multiset"
begin

unbundle bit_operations_syntax

section \<open>Compile-time ceiling logarithm: \<open>RoundedUpLog2\<close>\<close>

text \<open>
  \<^verbatim>\<open>
  template <size_t P, size_t I = 0, bool Found = P == 0>
  struct RoundedUpLog2 {};
  template <size_t P, size_t I>
  struct RoundedUpLog2<P, I, false> {
      static constexpr size_t value = RoundedUpLog2<P, I + 1, (1 << (I + 1)) >= P>::value;
  };
  template <size_t P, size_t I>
  struct RoundedUpLog2<P, I, true> { static constexpr size_t value = I; };
  \<close>
  \<open>size_t\<close> is taken as a 64-bit unsigned integer and \<open>int\<close> as a 32-bit signed one.
  The literal \<open>1\<close> is an \<open>int\<close>, so the shift is a 32-bit shift: shifting by 31 gives
  the most negative \<open>int\<close>, and shifting by 32 or more is not a constant expression, so the
  instantiation is ill-formed (\<open>None\<close>). The comparison with \<open>P\<close> converts the \<open>int\<close> to
  \<open>size_t\<close>, which sign-extends it (\<open>scast\<close>).
\<close>

type_synonym size_t = "64 word"
type_synonym int32 = "32 word"

definition shift_one :: "nat \<Rightarrow> int32 option" where
  "shift_one n = (if n < 32 then Some (push_bit n 1) else None)"

function RoundedUpLog2 :: "size_t \<Rightarrow> nat \<Rightarrow> bool \<Rightarrow> nat option" where
  "RoundedUpLog2 P I Found =
     (if Found then Some I
      else (case shift_one (I + 1) of
              None \<Rightarrow> None
            | Some s \<Rightarrow> RoundedUpLog2 P (I + 1) (scast s \<ge> P)))"
  by pat_completeness auto
termination
  by (relation "measure (\<lambda>(P, I, Found). 32 - I)")
     (auto simp: shift_one_def split: if_splits)

definition RoundedUpLog2_value :: "size_t \<Rightarrow> nat option" where
  "RoundedUpLog2_value P = RoundedUpLog2 P 0 (P = 0)"

section \<open>Bit reinterpretation: \<open>as\<close>\<close>

text \<open>
  \<^verbatim>\<open>
  template <typename To, typename From>
  To as(From from) {
      To to;
      std::memcpy(&to, &from, sizeof(from));
      return to;
  }
  \<close>
  A call has one of three outcomes: the program is rejected by the compiler, the call has
  undefined behaviour, or it returns a value. Objects are sequences of bytes; a byte of an
  object that has not been written yet is indeterminate (\<open>None\<close>). \<open>memcpy\<close> writes the
  first \<open>n\<close> bytes of the source over the destination and has undefined behaviour when
  \<open>n\<close> exceeds either object; returning an object with an indeterminate byte is undefined
  as well. The template body contains no static assertion, so no instantiation is rejected.
\<close>

datatype 'a outcome = Rejected | Undefined | Value 'a

fun then_outcome :: "'a outcome \<Rightarrow> ('a \<Rightarrow> 'b outcome) \<Rightarrow> 'b outcome" where
  "then_outcome Rejected f = Rejected"
| "then_outcome Undefined f = Undefined"
| "then_outcome (Value v) f = f v"

type_synonym byte = "8 word"

definition memcpy :: "byte option list \<Rightarrow> byte list \<Rightarrow> nat \<Rightarrow> byte option list outcome" where
  "memcpy dst src n =
     (if n \<le> length dst \<and> n \<le> length src
      then Value (map Some (take n src) @ drop n dst)
      else Undefined)"

definition read_object :: "byte option list \<Rightarrow> byte list outcome" where
  "read_object obj = (if None \<in> set obj then Undefined else Value (map the obj))"

definition as_bytes :: "nat \<Rightarrow> byte list \<Rightarrow> byte list outcome" where
  "as_bytes sizeof_To src =
     then_outcome (memcpy (replicate sizeof_To None) src (length src)) read_object"

text \<open>
  Scalars are words whose length is their storage size in bits, stored least significant
  byte first. A floating-point number is represented by its IEEE 754 encoding, stored
  like an integer of the same width.
\<close>

definition sizeof_bits :: "nat \<Rightarrow> nat" where
  "sizeof_bits n = (n + 7) div 8"

definition object_bytes :: "'a::len word \<Rightarrow> byte list" where
  "object_bytes w = map (\<lambda>k. ucast (drop_bit (8 * k) w)) [0..<sizeof_bits LENGTH('a)]"

definition object_value :: "byte list \<Rightarrow> 'a::len word" where
  "object_value bs = word_rcat (rev bs)"

definition as :: "'a::len word \<Rightarrow> 'b::len word outcome" where
  "as src =
     then_outcome (as_bytes (sizeof_bits LENGTH('b)) (object_bytes src))
       (\<lambda>bs. Value (object_value bs))"

section \<open>Sign combination: \<open>product_sign\<close>\<close>

text \<open>
  \<^verbatim>\<open>
  inline float product_sign(float x, float y) {
      return as<float>(as<uint32_t>(x) ^ (as<uint32_t>(y) & UINT32_C(0x80000000)));
  }
  inline double product_sign(double x, double y) {
      return as<double>(as<uint64_t>(x) ^ (as<uint64_t>(y) & UINT64_C(0x8000000000000000)));
  }
  \<close>
\<close>

type_synonym binary32 = "32 word"
type_synonym binary64 = "64 word"

definition product_sign_float :: "binary32 \<Rightarrow> binary32 \<Rightarrow> binary32 outcome" where
  "product_sign_float x y =
     then_outcome (as x :: 32 word outcome) (\<lambda>xb.
     then_outcome (as y :: 32 word outcome) (\<lambda>yb.
       as (xb XOR (yb AND 0x80000000))))"

definition product_sign_double :: "binary64 \<Rightarrow> binary64 \<Rightarrow> binary64 outcome" where
  "product_sign_double x y =
     then_outcome (as x :: 64 word outcome) (\<lambda>xb.
     then_outcome (as y :: 64 word outcome) (\<lambda>yb.
       as (xb XOR (yb AND 0x8000000000000000))))"

text \<open>
  The reference operations of the comparison \<open>copysign(x, x * y)\<close>, on encodings: the sign
  is the most significant bit, \<open>copysign\<close> takes the sign of its second argument and
  everything else from the first, and a number is finite when its exponent field is not
  all ones (8 bits below the sign for \<open>float\<close>, 11 for \<open>double\<close>).
\<close>

definition signbit :: "'a::len word \<Rightarrow> bool" where
  "signbit x = bit x (LENGTH('a) - 1)"

definition copysign :: "'a::len word \<Rightarrow> 'a word \<Rightarrow> 'a word" where
  "copysign x y = (x AND mask (LENGTH('a) - 1)) OR (y AND push_bit (LENGTH('a) - 1) 1)"

definition isfinite_float :: "binary32 \<Rightarrow> bool" where
  "isfinite_float x = (x AND 0x7F800000 \<noteq> 0x7F800000)"

definition isfinite_double :: "binary64 \<Rightarrow> bool" where
  "isfinite_double x = (x AND 0x7FF0000000000000 \<noteq> 0x7FF0000000000000)"

text \<open>
  The product \<open>x * y\<close> is the built-in multiplication of the language, which the
  function under study never calls; it is a parameter of the comparison. All that is
  required of it is the rule of IEEE 754 for the sign of a product: for finite operands the
  sign of the product is the exclusive or of the operands' signs.
\<close>

definition ieee_product_sign ::
  "('a::len word \<Rightarrow> bool) \<Rightarrow> ('a word \<Rightarrow> 'a word \<Rightarrow> 'a word) \<Rightarrow> bool" where
  "ieee_product_sign isfinite mul =
     (\<forall>a b. isfinite a \<and> isfinite b \<longrightarrow> signbit (mul a b) = (signbit a \<noteq> signbit b))"

text \<open>
  One multiplication with this property is the IEEE 754 product rounded to nearest, ties to
  even, for a format with \<open>t\<close> fraction bits (23 for \<open>float\<close>, 52 for \<open>double\<close>): the
  exact product of the significands is shifted to the precision of the format and rounded,
  results too small become subnormal or zero, results too large become infinite.
\<close>

fun bit_length :: "nat \<Rightarrow> nat" where
  "bit_length n = (if n = 0 then 0 else Suc (bit_length (n div 2)))"

definition round_shift :: "nat \<Rightarrow> int \<Rightarrow> nat" where
  "round_shift m sh =
     (if sh \<le> 0 then m * 2 ^ nat (- sh)
      else (let q = m div 2 ^ nat sh; r = m mod 2 ^ nat sh; half = 2 ^ (nat sh - 1)
            in if half < r \<or> (r = half \<and> odd q) then q + 1 else q))"

definition significand :: "nat \<Rightarrow> nat \<Rightarrow> nat \<Rightarrow> nat" where
  "significand t e f = (if e = 0 then f else 2 ^ t + f)"

definition finite_product :: "nat \<Rightarrow> nat \<Rightarrow> nat \<Rightarrow> nat \<Rightarrow> nat" where
  "finite_product t bias m ex =
     (let e0 = max 1 (int (bit_length m) - 1 + int ex - int bias - 2 * int t)
      in if m = 0 then 0
         else nat (e0 - 1) * 2 ^ t + round_shift m (e0 + int bias + int t - int ex))"

definition magnitude_product :: "nat \<Rightarrow> nat \<Rightarrow> nat \<Rightarrow> nat \<Rightarrow> nat \<Rightarrow> nat \<Rightarrow> nat" where
  "magnitude_product t w ea fa eb fb =
     (let emax = 2 ^ w - 1; inf = emax * 2 ^ t
      in if ea = emax \<or> eb = emax
         then (if (ea = emax \<and> fa \<noteq> 0) \<or> (eb = emax \<and> fb \<noteq> 0)
                  \<or> (ea = 0 \<and> fa = 0) \<or> (eb = 0 \<and> fb = 0)
               then inf + 2 ^ (t - 1) else inf)
         else min inf (finite_product t (2 ^ (w - 1) - 1)
                         (significand t ea fa * significand t eb fb) (max 1 ea + max 1 eb)))"

definition ieee_mul :: "nat \<Rightarrow> 'a::len word \<Rightarrow> 'a word \<Rightarrow> 'a word" where
  "ieee_mul t a b =
     (let w = LENGTH('a) - 1 - t
      in (if signbit a \<noteq> signbit b then push_bit (LENGTH('a) - 1) 1 else 0)
         OR word_of_nat
              (magnitude_product t w
                 (unat (take_bit w (drop_bit t a))) (unat (take_bit t a))
                 (unat (take_bit w (drop_bit t b))) (unat (take_bit t b))))"

section \<open>Atomic maximum: \<open>atomic_max\<close>\<close>

text \<open>
  \<^verbatim>\<open>
  template <typename Scalar>
  void atomic_max(std::atomic<Scalar>& x, Scalar y) {
      auto z = x.load();
      while (z < y && !x.compare_exchange_weak(z, y)) ;
  }
  \<close>
  The atomic object is a record of the value it holds and of two counters that only
  observe the execution: the compare-and-swap calls made and the writes performed.
  \<open>compare_exchange_weak\<close> may fail spuriously; whether a call does is read from a list
  of flags, one per call, and calls beyond the list do not fail spuriously. Run by one
  thread alone, nobody else writes to the object between the steps.
\<close>

record 'a atomic =
  held :: 'a
  cas_calls :: nat
  writes :: nat

definition load :: "'a atomic \<Rightarrow> 'a" where
  "load x = held x"

definition compare_exchange_weak ::
  "bool \<Rightarrow> 'a atomic \<Rightarrow> 'a \<Rightarrow> 'a \<Rightarrow> bool \<times> 'a atomic \<times> 'a" where
  "compare_exchange_weak spurious x expected desired =
     (if held x = expected \<and> \<not> spurious
      then (True, x\<lparr>held := desired, cas_calls := cas_calls x + 1, writes := writes x + 1\<rparr>,
            expected)
      else (False, x\<lparr>cas_calls := cas_calls x + 1\<rparr>, held x))"

function atomic_max_loop ::
  "bool list \<Rightarrow> ('a::linorder) atomic \<Rightarrow> 'a \<Rightarrow> 'a \<Rightarrow> 'a atomic" where
  "atomic_max_loop spurious x z y =
     (if z < y
      then (case compare_exchange_weak (spurious \<noteq> [] \<and> hd spurious) x z y of
              (ok, x', z') \<Rightarrow> if ok then x' else atomic_max_loop (tl spurious) x' z' y)
      else x)"
  by pat_completeness auto
termination
proof (relation "measure (\<lambda>(spurious, x, z, y).
        2 * length spurious + (if held x = z then 0 else 1))")
  fix spurious :: "bool list" and x :: "'a atomic" and z y :: 'a and ok r x' z'
  assume cas: "(ok, r) = compare_exchange_weak (spurious \<noteq> [] \<and> hd spurious) x z y"
    and r: "(x', z') = r" and fail: "\<not> ok"
  from cas r fail have x': "held x' = held x" and z': "z' = held x"
    and why: "held x \<noteq> z \<or> (spurious \<noteq> [] \<and> hd spurious)"
    by (auto simp: compare_exchange_weak_def split: if_splits)
  from why have "2 * length (tl spurious) < 2 * length spurious + (if held x = z then 0 else 1)"
    by (cases spurious) auto
  with x' z' show "((tl spurious, x', z', y), spurious, x, z, y)
      \<in> measure (\<lambda>(spurious, x, z, y). 2 * length spurious + (if held x = z then 0 else 1))"
    by simp
qed simp

definition atomic_max :: "bool list \<Rightarrow> ('a::linorder) atomic \<Rightarrow> 'a \<Rightarrow> 'a atomic" where
  "atomic_max spurious x y = atomic_max_loop spurious x (load x) y"

section \<open>Reordering: \<open>shuffle_primitives\<close>\<close>

text \<open>
  \<^verbatim>\<open>
  template <typename Primitive>
  void shuffle_primitives(Primitive* primitives, const size_t* indices, size_t primitive_count) {
      auto primitives_copy = std::make_unique<Primitive[]>(primitive_count);
      std::move(primitives, primitives + primitive_count, primitives_copy.get());
      for (size_t i = 0; i < primitive_count; ++i)
          primitives[i] = std::move(primitives_copy[indices[i]]);
  }
  \<close>
  Elements are moved, not copied: an object that has been moved from holds an unspecified
  value, written \<open>None\<close>. Reading or writing outside an array is undefined behaviour and
  ends the run with an error.
\<close>

datatype error = Out_Of_Bounds

function shuffle_loop ::
  "nat list \<Rightarrow> nat \<Rightarrow> nat \<Rightarrow> 'a option list \<Rightarrow> 'a option list \<Rightarrow> error + 'a option list" where
  "shuffle_loop indices primitive_count i primitives primitives_copy =
     (if i < primitive_count
      then (if i < length indices \<and> i < length primitives
               \<and> indices ! i < length primitives_copy
            then shuffle_loop indices primitive_count (i + 1)
                   (primitives[i := primitives_copy ! (indices ! i)])
                   (primitives_copy[indices ! i := None])
            else Inl Out_Of_Bounds)
      else Inr primitives)"
  by pat_completeness auto
termination
  by (relation "measure (\<lambda>(indices, primitive_count, i, primitives, primitives_copy).
        primitive_count - i)") auto

definition shuffle_primitives :: "'a list \<Rightarrow> nat list \<Rightarrow> nat \<Rightarrow> error + 'a option list" where
  "shuffle_primitives primitives indices primitive_count =
     (if primitive_count \<le> length primitives
      then shuffle_loop indices primitive_count 0
             (replicate primitive_count None @ map Some (drop primitive_count primitives))
             (map Some (take primitive_count primitives))
      else Inl Out_Of_Bounds)"

section \<open>Extraction: \<open>compute_bounding_boxes_and_centers\<close>\<close>

text \<open>
  \<^verbatim>\<open>
  template <typename Primitive, typename Scalar = typename Primitive::ScalarType>
  std::pair<std::unique_ptr<BoundingBox<Scalar>[]>, std::unique_ptr<Vector3<Scalar>[]>>
  compute_bounding_boxes_and_centers(const Primitive* primitives, size_t primitive_count) {
      auto bboxes  = std::make_unique<BoundingBox<Scalar>[]>(primitive_count);
      auto centers = std::make_unique<Vector3<Scalar>[]>(primitive_count);
      #pragma omp parallel for
      for (size_t i = 0; i < primitive_count; ++i) {
          bboxes[i]  = primitives[i].bounding_box();
          centers[i] = primitives[i].center();
      }
      return std::make_pair(std::move(bboxes), std::move(centers));
  }
  \<close>
  The primitive type is a parameter: its two const member functions are the arguments
  \<open>bounding_box\<close> and \<open>center\<close>, and \<open>box0\<close> and \<open>center0\<close> are the values of the
  freshly allocated array elements. The memory holds the caller's array and the two new
  ones. The loop body is two assignments; the loop runs them for \<open>i = 0, 1, ...\<close> in turn,
  and a parallel run executes the same assignments in some other order.
\<close>

record ('p, 'b, 'c) memory =
  primitives :: "'p list"
  bboxes :: "'b list"
  centers :: "'c list"

datatype assignment = Bbox nat | Center nat

fun exec :: "('p \<Rightarrow> 'b) \<Rightarrow> ('p \<Rightarrow> 'c) \<Rightarrow> assignment \<Rightarrow> ('p, 'b, 'c) memory \<Rightarrow> ('p, 'b, 'c) memory" where
  "exec bounding_box center (Bbox i) m =
     m\<lparr>bboxes := (bboxes m)[i := bounding_box (primitives m ! i)]\<rparr>"
| "exec bounding_box center (Center i) m =
     m\<lparr>centers := (centers m)[i := center (primitives m ! i)]\<rparr>"

definition loop_body :: "('p \<Rightarrow> 'b) \<Rightarrow> ('p \<Rightarrow> 'c) \<Rightarrow> nat \<Rightarrow> ('p, 'b, 'c) memory \<Rightarrow> ('p, 'b, 'c) memory" where
  "loop_body bounding_box center i m =
     exec bounding_box center (Center i) (exec bounding_box center (Bbox i) m)"

function extraction_loop ::
  "('p \<Rightarrow> 'b) \<Rightarrow> ('p \<Rightarrow> 'c) \<Rightarrow> nat \<Rightarrow> nat \<Rightarrow> ('p, 'b, 'c) memory \<Rightarrow> error + ('p, 'b, 'c) memory" where
  "extraction_loop bounding_box center primitive_count i m =
     (if i < primitive_count
      then (if i < length (primitives m) \<and> i < length (bboxes m) \<and> i < length (centers m)
            then extraction_loop bounding_box center primitive_count (i + 1)
                   (loop_body bounding_box center i m)
            else Inl Out_Of_Bounds)
      else Inr m)"
  by pat_completeness auto
termination
  by (relation "measure (\<lambda>(bounding_box, center, primitive_count, i, m). primitive_count - i)")
     auto

definition allocate :: "'b \<Rightarrow> 'c \<Rightarrow> 'p list \<Rightarrow> nat \<Rightarrow> ('p, 'b, 'c) memory" where
  "allocate box0 center0 ps primitive_count =
     \<lparr>primitives = ps, bboxes = replicate primitive_count box0,
      centers = replicate primitive_count center0\<rparr>"

definition compute_bounding_boxes_and_centers ::
  "('p \<Rightarrow> 'b) \<Rightarrow> ('p \<Rightarrow> 'c) \<Rightarrow> 'b \<Rightarrow> 'c \<Rightarrow> 'p list \<Rightarrow> nat \<Rightarrow> error + ('p, 'b, 'c) memory" where
  "compute_bounding_boxes_and_centers bounding_box center box0 center0 ps primitive_count =
     extraction_loop bounding_box center primitive_count 0
       (allocate box0 center0 ps primitive_count)"

text \<open>
  The assignments of the whole loop in program order, and a run of any sequence of
  assignments.
\<close>

definition loop_assignments :: "nat \<Rightarrow> assignment list" where
  "loop_assignments primitive_count =
     concat (map (\<lambda>i. [Bbox i, Center i]) [0..<primitive_count])"

definition run_schedule ::
  "('p \<Rightarrow> 'b) \<Rightarrow> ('p \<Rightarrow> 'c) \<Rightarrow> assignment list \<Rightarrow> ('p, 'b, 'c) memory \<Rightarrow> ('p, 'b, 'c) memory" where
  "run_schedule bounding_box center schedule m = fold (exec bounding_box center) schedule m"

section \<open>Properties of \<open>RoundedUpLog2\<close>\<close>

declare RoundedUpLog2.simps [simp del]
declare bit_length.simps [simp del]
declare atomic_max_loop.simps [simp del]
declare shuffle_loop.simps [simp del]
declare extraction_loop.simps [simp del]

lemma RoundedUpLog2_found: "RoundedUpLog2 P I True = Some I"
  by (simp add: RoundedUpLog2.simps)

lemma RoundedUpLog2_step:
  "I < 31 \<Longrightarrow> RoundedUpLog2 P I False
     = RoundedUpLog2 P (I + 1) (P \<le> scast (push_bit (I + 1) (1 :: int32)))"
  by (subst RoundedUpLog2.simps) (simp add: shift_one_def)

lemma scast_shift_small:
  assumes "n < 31"
  shows "(scast (push_bit n (1 :: int32)) :: size_t) = push_bit n 1"
proof (rule bit_word_eqI)
  fix k assume "k < LENGTH(64)"
  with assms show "bit (scast (push_bit n (1 :: int32)) :: size_t) k = bit (push_bit n 1 :: size_t) k"
    by (auto simp: bit_simps min_def)
qed

lemma le_shift_small:
  assumes "n < 31"
  shows "P \<le> (scast (push_bit n (1 :: int32)) :: size_t) \<longleftrightarrow> unat P \<le> 2 ^ n"
proof -
  from assms have "unat (push_bit n 1 :: size_t) = 2 ^ n"
    by (subst unsigned_push_bit_eq) (simp add: take_bit_nat_eq_self)
  then show ?thesis
    by (simp only: scast_shift_small [OF assms] word_le_nat_alt)
qed

lemma le_shift_31:
  assumes "unat P \<le> 2 ^ 31" and "n = 31"
  shows "P \<le> (scast (push_bit n (1 :: int32)) :: size_t)"
proof -
  have "(scast (push_bit n (1 :: int32)) :: size_t) = 0xFFFFFFFF80000000"
    using assms(2) by simp
  moreover have "unat (0xFFFFFFFF80000000 :: size_t) = 0xFFFFFFFF80000000" by simp
  ultimately show ?thesis
    using assms by (simp add: word_le_nat_alt)
qed

lemma Least_power_bracket:
  assumes "2 ^ n < p" and "p \<le> 2 ^ Suc n"
  shows "(LEAST k. (p :: nat) \<le> 2 ^ k) = Suc n"
proof (rule Least_equality)
  show "p \<le> 2 ^ Suc n" by fact
next
  fix k assume "p \<le> 2 ^ k"
  with assms(1) have "(2 :: nat) ^ n < 2 ^ k" by linarith
  then have "n < k" by simp
  then show "Suc n \<le> k" by simp
qed

text \<open>
  From 2 up to \<open>2^31\<close> the helper is the ceiling logarithm: the search started at
  \<open>I\<close> with \<open>2^I < P\<close> stops at the first power of two that reaches \<open>P\<close>.
\<close>

lemma RoundedUpLog2_search:
  assumes "I < 31" and "2 ^ I < unat P" and "unat P \<le> 2 ^ 31"
  shows "RoundedUpLog2 P I False = Some (LEAST k. unat P \<le> 2 ^ k)"
  using assms(1,2)
proof (induction "30 - I" arbitrary: I)
  case 0
  then have I: "I = 30" by simp
  with 0 assms(3) have "(LEAST k. unat P \<le> 2 ^ k) = Suc I"
    by (intro Least_power_bracket) simp_all
  moreover from I assms(3) have "P \<le> scast (push_bit (I + 1) (1 :: int32))"
    by (intro le_shift_31) simp_all
  ultimately show ?case
    using RoundedUpLog2_step [OF \<open>I < 31\<close>, of P] by (simp add: RoundedUpLog2_found)
next
  case (Suc d)
  then have I: "I + 1 < 31" by simp
  have step: "RoundedUpLog2 P I False = RoundedUpLog2 P (I + 1) (unat P \<le> 2 ^ (I + 1))"
    using RoundedUpLog2_step [OF \<open>I < 31\<close>, of P] le_shift_small [OF I, of P] by (simp only:)
  show ?case
  proof (cases "unat P \<le> 2 ^ (I + 1)")
    case True
    with Suc.prems have "(LEAST k. unat P \<le> 2 ^ k) = Suc I"
      by (intro Least_power_bracket) simp_all
    with True step show ?thesis
      by (simp add: RoundedUpLog2_found)
  next
    case False
    then have "2 ^ (I + 1) < unat P" by simp
    with Suc.hyps(2) I have "RoundedUpLog2 P (I + 1) False = Some (LEAST k. unat P \<le> 2 ^ k)"
      by (intro Suc.hyps(1)) simp_all
    with False step show ?thesis
      by simp
  qed
qed

lemma RoundedUpLog2_ceiling:
  assumes "2 \<le> unat P" and "unat P \<le> 2 ^ 31"
  shows "RoundedUpLog2_value P = Some (LEAST k. unat P \<le> 2 ^ k)"
proof -
  from assms(1) have "P \<noteq> 0" by auto
  moreover have "RoundedUpLog2 P 0 False = Some (LEAST k. unat P \<le> 2 ^ k)"
    using assms by (intro RoundedUpLog2_search) simp_all
  ultimately show ?thesis by (simp add: RoundedUpLog2_value_def)
qed

lemma RoundedUpLog2_listed:
  "RoundedUpLog2_value 2 = Some 1" "RoundedUpLog2_value 3 = Some 2"
  "RoundedUpLog2_value 4 = Some 2" "RoundedUpLog2_value 5 = Some 3"
  "RoundedUpLog2_value 1024 = Some 10"
  by (simp_all add: RoundedUpLog2_value_def RoundedUpLog2_step RoundedUpLog2_found)

text \<open>
  Above \<open>2^31\<close> it is not: the 32-bit shift \<open>1 << 31\<close> is negative and converts to a
  \<open>size_t\<close> above every such \<open>P\<close>, so the search stops at 31.
\<close>

lemma RoundedUpLog2_large: "RoundedUpLog2_value (2 ^ 31 + 1) = Some 31"
  by (simp add: RoundedUpLog2_value_def RoundedUpLog2_step RoundedUpLog2_found)

text \<open>
  Claim C1: for every \<open>P > 0\<close> the helper equals the smallest \<open>k\<close> with \<open>2^k \<ge> P\<close>,
  in particular 0 for \<open>P = 1\<close>. At \<open>P = 1\<close> the code does not: the first comparison
  it makes is \<open>2^1 \<ge> P\<close>, so it yields 1, while the smallest \<open>k\<close> with \<open>2^k \<ge> 1\<close> is 0.
\<close>

theorem RoundedUpLog2_one:
  "RoundedUpLog2_value 1 = Some 1 \<and> (LEAST k. (1::nat) \<le> 2 ^ k) = 0"
  by (simp add: RoundedUpLog2_value_def RoundedUpLog2_step RoundedUpLog2_found)

text \<open>
  Claim C9: instantiated with \<open>P = 0\<close> the helper is well defined and yields 0: the default
  argument \<open>Found = (P == 0)\<close> selects the base case at \<open>I = 0\<close>.
\<close>

theorem RoundedUpLog2_zero:
  "RoundedUpLog2_value 0 = Some 0 \<and> RoundedUpLog2 0 0 (0 = (0 :: size_t)) = Some 0"
  by (simp add: RoundedUpLog2_value_def RoundedUpLog2_found)

section \<open>Properties of \<open>as\<close>\<close>

lemma length_object_bytes: "length (object_bytes (w :: 'a::len word)) = sizeof_bits LENGTH('a)"
  by (simp add: object_bytes_def)

lemma as_bytes_same_size: "length src = n \<Longrightarrow> as_bytes n src = Value src"
  by (simp add: as_bytes_def memcpy_def read_object_def comp_def)

lemma as_bytes_other_size: "length src \<noteq> n \<Longrightarrow> as_bytes n src = Undefined"
  by (cases "length src < n")
     (auto simp: as_bytes_def memcpy_def read_object_def)

lemma bit_object_value:
  "bit (object_value bs :: 'b::len word) k \<longleftrightarrow>
     k < LENGTH('b) \<and> k div 8 < length bs \<and> bit (bs ! (k div 8)) (k mod 8)"
proof -
  have "bit (horner_sum uint (2 ^ LENGTH(8)) bs) k \<longleftrightarrow>
      k div LENGTH(8) < length bs \<and> bit (bs ! (k div LENGTH(8))) (k mod LENGTH(8))"
    by (rule bit_horner_sum_uint_exp_iff)
  then show ?thesis
    by (simp add: object_value_def word_rcat_def bit_word_of_int_iff)
qed

lemma object_value_object_bytes:
  assumes "LENGTH('b::len) = LENGTH('a::len)"
  shows "(object_value (object_bytes (w :: 'a word)) :: 'b word) = ucast w"
proof (rule bit_word_eqI)
  fix k assume k: "k < LENGTH('b)"
  with assms have "k div 8 < sizeof_bits LENGTH('a)"
    by (simp add: sizeof_bits_def)
  moreover have "8 * (k div 8) + k mod 8 = k" by simp
  ultimately show "bit (object_value (object_bytes w) :: 'b word) k = bit (ucast w :: 'b word) k"
    using k assms
    by (simp add: bit_object_value length_object_bytes object_bytes_def bit_ucast_iff
        bit_drop_bit_eq)
qed

lemma as_same_size:
  assumes "LENGTH('b::len) = LENGTH('a::len)"
  shows "as (x :: 'a word) = Value (ucast x :: 'b word)"
  using assms
  by (simp add: as_def as_bytes_same_size length_object_bytes object_value_object_bytes)

lemma as_other_size:
  assumes "sizeof_bits LENGTH('b::len) \<noteq> sizeof_bits LENGTH('a::len)"
  shows "as (x :: 'a word) = (Undefined :: 'b word outcome)"
  using assms
  by (simp add: as_def as_bytes_other_size length_object_bytes)

lemma as_id: "as (x :: 'a::len word) = Value x"
  by (simp add: as_same_size)

text \<open>
  Claim C6, as amended: no instantiation of \<open>as\<close> is rejected at compile time, since the
  template has no static assertion. When source and destination have the same storage size
  the call returns the bit pattern of its argument; when their storage sizes differ the
  call compiles and has undefined behaviour at run time.
\<close>

theorem as_never_rejected:
  "(as (x :: 'a::len word) :: 'b::len word outcome) \<noteq> Rejected
   \<and> (LENGTH('b) = LENGTH('a) \<longrightarrow> as x = Value (ucast x :: 'b word))
   \<and> (sizeof_bits LENGTH('b) \<noteq> sizeof_bits LENGTH('a)
        \<longrightarrow> as x = (Undefined :: 'b word outcome))"
proof -
  have "(as x :: 'b word outcome) \<noteq> Rejected"
    by (cases "sizeof_bits LENGTH('b) = sizeof_bits LENGTH('a)")
       (simp_all add: as_def as_bytes_same_size as_bytes_other_size length_object_bytes)
  then show ?thesis
    by (simp add: as_same_size as_other_size)
qed

theorem as_never_rejected_witness:
  "(as (0x3F800000 :: 32 word) :: 32 word outcome) = Value 0x3F800000
   \<and> (as (0x3F800000 :: 32 word) :: 64 word outcome) = Undefined
   \<and> (as (1 :: 64 word) :: 32 word outcome) = Undefined"
  using as_never_rejected [where 'a = 32 and 'b = 32, of "0x3F800000"]
    as_never_rejected [where 'a = 32 and 'b = 64, of "0x3F800000"]
    as_never_rejected [where 'a = 64 and 'b = 32, of 1]
  by (simp add: sizeof_bits_def)

text \<open>
  Claim C6 as stated fails: \<open>as<uint32_t>\<close> applied to a 64-bit value, whose storage size
  is 8 bytes against 4, is not rejected.
\<close>

theorem as_unequal_size_counterexample:
  "sizeof_bits LENGTH(64) \<noteq> sizeof_bits LENGTH(32)
   \<and> (as (1 :: 64 word) :: 32 word outcome) \<noteq> Rejected"
  by (simp add: as_other_size sizeof_bits_def)

section \<open>Properties of \<open>product_sign\<close>\<close>

lemma sign_mask_float: "(0x80000000 :: 32 word) = push_bit 31 1"
  by simp

lemma sign_mask_double: "(0x8000000000000000 :: 64 word) = push_bit 63 1"
  by simp

lemma product_sign_float_bits: "product_sign_float x y = Value (x XOR (y AND push_bit 31 1))"
  by (simp add: product_sign_float_def as_id)

lemma product_sign_double_bits: "product_sign_double x y = Value (x XOR (y AND push_bit 63 1))"
  by (simp add: product_sign_double_def as_id)

lemma xor_sign_low_bits:
  "take_bit n (x XOR (y AND push_bit n 1)) = take_bit n (x :: 'a::len word)"
  by (rule bit_word_eqI) (auto simp: bit_simps)

lemma xor_sign_copysign:
  fixes x y p :: "'a::len word"
  assumes "signbit p = (signbit x \<noteq> signbit y)"
  shows "x XOR (y AND push_bit (LENGTH('a) - 1) 1) = copysign x p"
proof (rule bit_word_eqI)
  fix n assume "n < LENGTH('a)"
  then consider "n = LENGTH('a) - 1" | "n < LENGTH('a) - 1" by linarith
  then show "bit (x XOR (y AND push_bit (LENGTH('a) - 1) 1)) n = bit (copysign x p) n"
  proof cases
    case 1
    with assms show ?thesis
      by (auto simp: copysign_def signbit_def bit_simps)
  next
    case 2
    then show ?thesis
      by (auto simp: copysign_def bit_simps)
  qed
qed

text \<open>
  Claim C10: for all inputs, with no restriction, the bit pattern of the result is
  \<open>bits(x) XOR (bits(y) AND sign mask)\<close>, and every bit of the result other than the sign
  bit is the corresponding bit of \<open>x\<close>; for \<open>float\<close> and for \<open>double\<close>.
\<close>

theorem product_sign_bit_pattern:
  "product_sign_float x y = Value (x XOR (y AND 0x80000000))
   \<and> take_bit 31 (x XOR (y AND 0x80000000)) = take_bit 31 x
   \<and> product_sign_double u v = Value (u XOR (v AND 0x8000000000000000))
   \<and> take_bit 63 (u XOR (v AND 0x8000000000000000)) = take_bit 63 u"
  unfolding sign_mask_float sign_mask_double
  by (simp add: product_sign_float_bits product_sign_double_bits xor_sign_low_bits)

theorem product_sign_bit_pattern_witness:
  "product_sign_float 0x7FC00001 0xFF800000 = Value 0xFFC00001
   \<and> product_sign_double 0x3FF8000000000000 0x8000000000000000 = Value 0xBFF8000000000000"
  using product_sign_bit_pattern [of "0x7FC00001" "0xFF800000"
      "0x3FF8000000000000" "0x8000000000000000"]
  by simp

subsection \<open>The rounded product obeys the sign rule\<close>

lemma magnitude_product_bound:
  assumes "0 < t"
  shows "magnitude_product t w ea fa eb fb < 2 ^ (w + t)"
proof -
  have "(2 ^ w - 1) * 2 ^ t + 2 ^ (t - 1) < (2::nat) ^ (w + t)"
  proof -
    have "(2::nat) ^ (t - 1) < 2 ^ t" using assms by simp
    moreover have "(2 ^ w - 1) * 2 ^ t + 2 ^ t = (2::nat) ^ (w + t)"
      by (simp add: power_add algebra_simps)
    ultimately show ?thesis by linarith
  qed
  moreover have "(2 ^ w - 1) * 2 ^ t \<le> (2 ^ w - 1) * 2 ^ t + (2::nat) ^ (t - 1)" by simp
  ultimately show ?thesis
    unfolding magnitude_product_def Let_def by (auto simp: min_def)
qed

lemma signbit_or_magnitude:
  assumes "m < 2 ^ (LENGTH('a::len) - 1)"
  shows "signbit ((if s then push_bit (LENGTH('a) - 1) 1 else 0) OR (word_of_nat m :: 'a word)) = s"
proof -
  from assms have "\<not> bit m (LENGTH('a) - 1)"
    by (simp add: bit_iff_odd)
  then show ?thesis
    by (simp add: signbit_def bit_simps)
qed

lemma ieee_mul_sign:
  assumes "0 < t" and "t < LENGTH('a::len)"
  shows "signbit (ieee_mul t a b) = (signbit a \<noteq> signbit (b :: 'a word))"
proof -
  from assms have "LENGTH('a) - 1 - t + t = LENGTH('a) - 1" by simp
  with magnitude_product_bound [OF assms(1), of "LENGTH('a) - 1 - t"]
  have "magnitude_product t (LENGTH('a) - 1 - t) ea fa eb fb < 2 ^ (LENGTH('a) - 1)"
    for ea fa eb fb by simp
  then show ?thesis
    unfolding ieee_mul_def Let_def by (rule signbit_or_magnitude)
qed

lemma ieee_mul_product_sign:
  "0 < t \<Longrightarrow> t < LENGTH('a::len) \<Longrightarrow>
   ieee_product_sign isfinite (ieee_mul t :: 'a word \<Rightarrow> 'a word \<Rightarrow> 'a word)"
  by (simp add: ieee_product_sign_def ieee_mul_sign)

lemma bit_length_numeral:
  "bit_length 0 = 0"
  "bit_length (Suc 0) = 1"
  "bit_length (numeral k) = Suc (bit_length (numeral k div 2))"
  by (simp_all add: bit_length.simps [of 0] bit_length.simps [of "Suc 0"]
      bit_length.simps [of "numeral k"])

lemmas ieee_mul_eval = ieee_mul_def magnitude_product_def finite_product_def significand_def
  round_shift_def signbit_def bit_length_numeral Let_def drop_bit_eq_div take_bit_eq_mod

text \<open>\<open>1.0 * -2.0 = -2.0\<close> in single precision.\<close>

lemma ieee_mul_float_example: "ieee_mul 23 (0x3F800000 :: 32 word) 0xC0000000 = 0xC0000000"
  by (simp add: ieee_mul_eval)

text \<open>
  In double precision, minus the smallest subnormal number times \<open>-0.5\<close> is half way
  between zero and the smallest subnormal number, and rounds to the even one: \<open>+0.0\<close>.
\<close>

lemma ieee_mul_double_example:
  "ieee_mul 52 (0x8000000000000001 :: 64 word) 0xBFE0000000000000 = 0"
  by (simp add: ieee_mul_eval)

text \<open>
  Claim C2: for all finite \<open>x\<close> and \<open>y\<close>, signed zeros included, \<open>product_sign(x, y)\<close> is
  bit for bit \<open>copysign(x, x * y)\<close>, whatever multiplication obeying the IEEE 754 sign rule
  computes \<open>x * y\<close>: the result is \<open>x\<close> with its sign bit replaced by the exclusive or of
  the sign bits of \<open>x\<close> and \<open>y\<close>. \<open>product_sign\<close> itself does not multiply: it has no
  access to the multiplication. This holds for the \<open>float\<close> and the \<open>double\<close> overload.
\<close>

theorem product_sign_copysign:
  assumes "ieee_product_sign isfinite_float fmul" and "ieee_product_sign isfinite_double dmul"
    and "isfinite_float x" and "isfinite_float y"
    and "isfinite_double u" and "isfinite_double v"
  shows "product_sign_float x y = Value (copysign x (fmul x y))
    \<and> signbit (copysign x (fmul x y)) = (signbit x \<noteq> signbit y)
    \<and> take_bit 31 (copysign x (fmul x y)) = take_bit 31 x
    \<and> product_sign_double u v = Value (copysign u (dmul u v))
    \<and> signbit (copysign u (dmul u v)) = (signbit u \<noteq> signbit v)
    \<and> take_bit 63 (copysign u (dmul u v)) = take_bit 63 u"
proof -
  from assms have f: "signbit (fmul x y) = (signbit x \<noteq> signbit y)"
    and d: "signbit (dmul u v) = (signbit u \<noteq> signbit v)"
    by (simp_all add: ieee_product_sign_def)
  have "x XOR (y AND push_bit (LENGTH(32) - 1) 1) = copysign x (fmul x y)"
    by (rule xor_sign_copysign [OF f])
  then have x: "copysign x (fmul x y) = x XOR (y AND push_bit 31 1)" by simp
  have "u XOR (v AND push_bit (LENGTH(64) - 1) 1) = copysign u (dmul u v)"
    by (rule xor_sign_copysign [OF d])
  then have u: "copysign u (dmul u v) = u XOR (v AND push_bit 63 1)" by simp
  have "signbit (x XOR (y AND push_bit 31 1)) = (signbit x \<noteq> signbit y)"
    and "signbit (u XOR (v AND push_bit 63 1)) = (signbit u \<noteq> signbit v)"
    by (auto simp: signbit_def bit_simps)
  then show ?thesis
    unfolding x u
    by (simp add: product_sign_float_bits product_sign_double_bits xor_sign_low_bits)
qed

theorem product_sign_copysign_witness:
  "ieee_product_sign isfinite_float (ieee_mul 23)
   \<and> ieee_product_sign isfinite_double (ieee_mul 52)
   \<and> isfinite_float 0x3F800000 \<and> isfinite_float 0xC0000000
   \<and> isfinite_double 0x8000000000000001 \<and> isfinite_double 0xBFE0000000000000
   \<and> product_sign_float 0x3F800000 0xC0000000 = Value (copysign 0x3F800000 0xC0000000)
   \<and> copysign 0x3F800000 0xC0000000 = (0xBF800000 :: 32 word)
   \<and> product_sign_double 0x8000000000000001 0xBFE0000000000000
        = Value (copysign 0x8000000000000001 0)
   \<and> copysign 0x8000000000000001 0 = (1 :: 64 word)"
proof -
  have f: "ieee_product_sign isfinite_float (ieee_mul 23)"
    and d: "ieee_product_sign isfinite_double (ieee_mul 52)"
    by (simp_all add: ieee_mul_product_sign)
  have fin: "isfinite_float 0x3F800000" "isfinite_float 0xC0000000"
    "isfinite_double 0x8000000000000001" "isfinite_double 0xBFE0000000000000"
    by (simp_all add: isfinite_float_def isfinite_double_def)
  have c: "copysign 0x3F800000 0xC0000000 = (0xBF800000 :: 32 word)"
    "copysign 0x8000000000000001 0 = (1 :: 64 word)"
    by (simp_all add: copysign_def mask_eq_exp_minus_1)
  from product_sign_copysign [OF f d fin] f d fin c show ?thesis
    by (simp add: ieee_mul_float_example ieee_mul_double_example)
qed

section \<open>Properties of \<open>atomic_max\<close>\<close>

lemma atomic_max_loop_no_update: "\<not> z < y \<Longrightarrow> atomic_max_loop spurious x z y = x"
  by (simp add: atomic_max_loop.simps)

lemma atomic_max_loop_held:
  "held x = z \<Longrightarrow> z < y \<Longrightarrow> held (atomic_max_loop spurious x z y) = y"
proof (induction spurious arbitrary: x)
  case Nil
  then show ?case
    by (simp add: atomic_max_loop.simps [of "[]"] compare_exchange_weak_def)
next
  case (Cons f fs)
  show ?case
  proof (cases f)
    case True
    have "held (atomic_max_loop fs (x\<lparr>cas_calls := cas_calls x + 1\<rparr>) z y) = y"
      using Cons.prems by (intro Cons.IH) simp_all
    with True Cons.prems show ?thesis
      by (subst atomic_max_loop.simps) (simp add: compare_exchange_weak_def)
  next
    case False
    with Cons.prems show ?thesis
      by (subst atomic_max_loop.simps) (simp add: compare_exchange_weak_def)
  qed
qed

lemma atomic_max_held: "held (atomic_max spurious x y) = max (held x) y"
proof (cases "held x < y")
  case True
  then show ?thesis
    by (simp add: atomic_max_def load_def atomic_max_loop_held max_absorb2)
next
  case False
  then show ?thesis
    by (simp add: atomic_max_def load_def atomic_max_loop_no_update max_def)
qed

text \<open>
  Claim C5: run by one thread, with any finite number of spurious compare-and-swap
  failures, \<open>atomic_max(x, y)\<close> returns and leaves the shared scalar equal to the maximum
  of the value \<open>v\<close> it held and \<open>y\<close>: it is at least the candidate and at least \<open>v\<close>.
\<close>

theorem atomic_max_is_max:
  "held (atomic_max spurious x y) = max (held x) y
   \<and> y \<le> held (atomic_max spurious x y)
   \<and> held x \<le> held (atomic_max spurious x y)"
  by (simp add: atomic_max_held)

theorem atomic_max_is_max_witness:
  "held (atomic_max [True, False, True] \<lparr>held = 3 :: int, cas_calls = 0, writes = 0\<rparr> 7) = 7
   \<and> atomic_max [True, False, True] \<lparr>held = 3 :: int, cas_calls = 0, writes = 0\<rparr> 7
        = \<lparr>held = 7, cas_calls = 2, writes = 1\<rparr>"
  using atomic_max_is_max [of "[True, False, True]"
      "\<lparr>held = 3 :: int, cas_calls = 0, writes = 0\<rparr>" 7]
  by (simp add: atomic_max_def load_def atomic_max_loop.simps compare_exchange_weak_def)

text \<open>
  Claim C8: when the candidate \<open>y\<close> is at most the value held, \<open>atomic_max\<close> writes
  nothing: no compare-and-swap is executed and the atomic object, counters included, is
  exactly what it was.
\<close>

theorem atomic_max_no_write:
  "y \<le> held x \<Longrightarrow> atomic_max spurious x y = x"
  by (simp add: atomic_max_def load_def atomic_max_loop_no_update)

theorem atomic_max_no_write_witness:
  "(3 :: int) \<le> held \<lparr>held = 5, cas_calls = 0, writes = 0\<rparr>
   \<and> atomic_max [True, False] \<lparr>held = 5, cas_calls = 0, writes = 0\<rparr> (3 :: int)
        = \<lparr>held = 5, cas_calls = 0, writes = 0\<rparr>"
  using atomic_max_no_write [of "3 :: int" "\<lparr>held = 5, cas_calls = 0, writes = 0\<rparr>"
      "[True, False]"]
  by simp

section \<open>Properties of \<open>shuffle_primitives\<close>\<close>

text \<open>
  The loop invariant: the elements of the staging copy that the remaining iterations will
  read have not been moved from.
\<close>

lemma shuffle_loop_run:
  assumes "length indices = n" and "distinct indices" and "\<forall>k<n. indices ! k < n"
    and "i \<le> n" and "n \<le> length ps" and "length cs = n"
    and "\<forall>k<n. i \<le> k \<longrightarrow> cs ! (indices ! k) = Some (orig ! (indices ! k))"
  shows "shuffle_loop indices n i ps cs =
    Inr (take i ps @ map (\<lambda>k. Some (orig ! (indices ! k))) [i..<n] @ drop n ps)"
  using assms(4-)
proof (induction "n - i" arbitrary: i ps cs)
  case 0
  then show ?case by (subst shuffle_loop.simps) simp
next
  case (Suc d)
  then have i: "i < n" and d: "d = n - (i + 1)" by simp_all
  let ?j = "indices ! i"
  let ?ps = "ps[i := cs ! ?j]" and ?cs = "cs[?j := None]"
  from i assms(3) have j: "?j < n" by simp
  from i Suc.prems have v: "cs ! ?j = Some (orig ! ?j)" by simp
  have rest: "\<forall>k<n. i + 1 \<le> k \<longrightarrow> ?cs ! (indices ! k) = Some (orig ! (indices ! k))"
  proof (intro allI impI)
    fix k assume k: "k < n" "i + 1 \<le> k"
    with i assms(1,2) have "indices ! k \<noteq> ?j"
      by (simp add: nth_eq_iff_index_eq)
    with k Suc.prems show "?cs ! (indices ! k) = Some (orig ! (indices ! k))" by simp
  qed
  have "shuffle_loop indices n (i + 1) ?ps ?cs =
    Inr (take (i + 1) ?ps @ map (\<lambda>k. Some (orig ! (indices ! k))) [i + 1..<n] @ drop n ?ps)"
    using i Suc.prems rest by (intro Suc.hyps(1) d) simp_all
  moreover have "take (i + 1) ?ps = take i ps @ [Some (orig ! ?j)]"
    using i Suc.prems v by (simp add: take_Suc_conv_app_nth)
  moreover have "drop n ?ps = drop n ps"
    using i by simp
  ultimately show ?case
    using i j Suc.prems assms(1)
    by (subst shuffle_loop.simps) (simp add: upt_conv_Cons)
qed

lemma bijection_indices:
  assumes "length indices = n" and "bij_betw (\<lambda>i. indices ! i) {..<n} {..<n}"
  shows "distinct indices" and "\<forall>k<n. indices ! k < n" and "mset indices = mset [0..<n]"
proof -
  from assms(2) have inj: "inj_on (\<lambda>i. indices ! i) {..<n}"
    and img: "(\<lambda>i. indices ! i) ` {..<n} = {..<n}"
    by (simp_all add: bij_betw_def)
  from inj assms(1) show d: "distinct indices"
    by (auto simp: distinct_conv_nth inj_on_def)
  from img show "\<forall>k<n. indices ! k < n" by blast
  from assms(1) have "set indices = (\<lambda>i. indices ! i) ` {..<n}"
    by (auto simp: set_conv_nth)
  with img have "set indices = set [0..<n]" by auto
  with d show "mset indices = mset [0..<n]"
    by (metis distinct_upt set_eq_iff_mset_eq_distinct)
qed

lemma reorder_mset:
  assumes "length indices = n" and "mset indices = mset [0..<n]" and "n \<le> length ps"
  shows "mset (map (\<lambda>i. ps ! (indices ! i)) [0..<n]) = mset (take n ps)"
proof -
  have "map (\<lambda>i. ps ! (indices ! i)) [0..<n] = map ((!) ps) (map ((!) indices) [0..<n])"
    by simp
  also have "map ((!) indices) [0..<n] = indices"
    using map_nth [of indices] assms(1) by simp
  finally have "mset (map (\<lambda>i. ps ! (indices ! i)) [0..<n]) = image_mset ((!) ps) (mset indices)"
    by simp
  also have "\<dots> = mset (map ((!) ps) [0..<n])"
    by (simp add: assms(2))
  also have "map ((!) ps) [0..<n] = take n ps"
    using assms(3) by (intro nth_equalityI) simp_all
  finally show ?thesis .
qed

text \<open>
  Claim C3: for an array of \<open>count\<close> primitives and indices that are a bijection on
  \<open>[0, count)\<close>, \<open>count = 0\<close> included, after the call the element at every index \<open>i\<close> is
  the element that was at index \<open>indices[i]\<close> (and no moved-from object remains); the new
  array has the elements of the old one, none lost and none duplicated.
\<close>

theorem shuffle_primitives_permutes:
  assumes "length ps = primitive_count" and "length indices = primitive_count"
    and "bij_betw (\<lambda>i. indices ! i) {..<primitive_count} {..<primitive_count}"
  shows "shuffle_primitives ps indices primitive_count =
      Inr (map (\<lambda>i. Some (ps ! (indices ! i))) [0..<primitive_count])
    \<and> mset (map (\<lambda>i. ps ! (indices ! i)) [0..<primitive_count]) = mset ps"
proof -
  note b = bijection_indices [OF assms(2,3)]
  have "shuffle_loop indices primitive_count 0
      (replicate primitive_count None @ map Some (drop primitive_count ps))
      (map Some (take primitive_count ps)) =
    Inr (take 0 (replicate primitive_count None @ map Some (drop primitive_count ps))
      @ map (\<lambda>k. Some (ps ! (indices ! k))) [0..<primitive_count]
      @ drop primitive_count (replicate primitive_count None @ map Some (drop primitive_count ps)))"
    using assms(1,2) b(1,2) by (intro shuffle_loop_run) simp_all
  moreover have "mset (map (\<lambda>i. ps ! (indices ! i)) [0..<primitive_count]) = mset ps"
    using reorder_mset [OF assms(2) b(3), of ps] assms(1) by simp
  ultimately show ?thesis
    using assms(1) by (simp add: shuffle_primitives_def)
qed

theorem shuffle_primitives_permutes_witness:
  "length ''abcd'' = 4 \<and> length [2, 0, 3, 1 :: nat] = 4
   \<and> bij_betw (\<lambda>i. [2, 0, 3, 1 :: nat] ! i) {..<4} {..<4}
   \<and> shuffle_primitives ''abcd'' [2, 0, 3, 1] 4 = Inr (map Some ''cadb'')
   \<and> shuffle_primitives ([] :: char list) [] 0 = Inr []"
proof -
  have "{..<4 :: nat} = {0, 1, 2, 3}" by auto
  then have b: "bij_betw (\<lambda>i. [2, 0, 3, 1 :: nat] ! i) {..<4} {..<4}"
    by (auto simp: bij_betw_def)
  with shuffle_primitives_permutes [of "''abcd''" 4 "[2, 0, 3, 1]"]
  have "shuffle_primitives ''abcd'' [2, 0, 3, 1] 4 =
      Inr (map (\<lambda>i. Some (''abcd'' ! ([2, 0, 3, 1] ! i))) [0..<4])"
    by simp
  moreover have "[0..<4] = [0, 1, 2, 3]" by (simp add: upt_rec)
  moreover have "shuffle_primitives ([] :: char list) [] 0 = Inr []"
    using shuffle_primitives_permutes [of "[] :: char list" 0 "[]"] by (simp add: bij_betw_def)
  ultimately show ?thesis using b by simp
qed

section \<open>Properties of \<open>compute_bounding_boxes_and_centers\<close>\<close>

lemma primitives_exec: "primitives (exec bb ce a m) = primitives m"
  by (cases a) simp_all

lemma primitives_fold_exec: "primitives (fold (exec bb ce) es m) = primitives m"
  by (induction es arbitrary: m) (simp_all add: primitives_exec)

lemma length_fold_exec:
  "length (bboxes (fold (exec bb ce) es m)) = length (bboxes m)
   \<and> length (centers (fold (exec bb ce) es m)) = length (centers m)"
proof (induction es arbitrary: m)
  case Nil
  show ?case by simp
next
  case (Cons a es)
  show ?case using Cons [of "exec bb ce a m"] by (cases a) simp_all
qed

text \<open>
  What a slot holds after a run depends only on whether its assignment was in the run.
\<close>

lemma bboxes_fold_exec:
  "k < length (bboxes m) \<Longrightarrow>
   bboxes (fold (exec bb ce) es m) ! k =
     (if Bbox k \<in> set es then bb (primitives m ! k) else bboxes m ! k)"
proof (induction es arbitrary: m)
  case Nil
  show ?case by simp
next
  case (Cons a es)
  have "k < length (bboxes (exec bb ce a m))"
    using Cons.prems by (cases a) simp_all
  from Cons.IH [OF this] Cons.prems show ?case
    by (cases a) (auto simp: nth_list_update)
qed

lemma centers_fold_exec:
  "k < length (centers m) \<Longrightarrow>
   centers (fold (exec bb ce) es m) ! k =
     (if Center k \<in> set es then ce (primitives m ! k) else centers m ! k)"
proof (induction es arbitrary: m)
  case Nil
  show ?case by simp
next
  case (Cons a es)
  have "k < length (centers (exec bb ce a m))"
    using Cons.prems by (cases a) simp_all
  from Cons.IH [OF this] Cons.prems show ?case
    by (cases a) (auto simp: nth_list_update)
qed

lemma memory_eqI:
  fixes m m' :: "('p, 'b, 'c) memory"
  assumes "primitives m = primitives m'" "bboxes m = bboxes m'" "centers m = centers m'"
  shows "m = m'"
  using assms by simp

lemma fold_exec_cong_set:
  fixes m :: "('p, 'b, 'c) memory"
  assumes "set es = set es'"
  shows "fold (exec bb ce) es m = fold (exec bb ce) es' m"
proof (rule memory_eqI)
  show "primitives (fold (exec bb ce) es m) = primitives (fold (exec bb ce) es' m)"
    by (simp add: primitives_fold_exec)
  show "bboxes (fold (exec bb ce) es m) = bboxes (fold (exec bb ce) es' m)"
    by (rule nth_equalityI) (simp_all add: length_fold_exec bboxes_fold_exec assms)
  show "centers (fold (exec bb ce) es m) = centers (fold (exec bb ce) es' m)"
    by (rule nth_equalityI) (simp_all add: length_fold_exec centers_fold_exec assms)
qed

lemma extraction_loop_fold:
  assumes "n \<le> length (primitives m)" "n \<le> length (bboxes m)" "n \<le> length (centers m)"
  shows "extraction_loop bb ce n i m =
    Inr (fold (exec bb ce) (concat (map (\<lambda>i. [Bbox i, Center i]) [i..<n])) m)"
  using assms
proof (induction "n - i" arbitrary: i m)
  case 0
  then show ?case by (subst extraction_loop.simps) simp
next
  case (Suc d)
  then have i: "i < n" and d: "d = n - (i + 1)" by simp_all
  have "extraction_loop bb ce n (i + 1) (loop_body bb ce i m) =
    Inr (fold (exec bb ce) (concat (map (\<lambda>i. [Bbox i, Center i]) [i + 1..<n]))
          (loop_body bb ce i m))"
    using Suc.prems by (intro Suc.hyps(1) d) (simp_all add: loop_body_def)
  with i Suc.prems show ?case
    by (subst extraction_loop.simps) (simp add: upt_conv_Cons loop_body_def)
qed

lemma set_loop_assignments:
  "set (loop_assignments n) = Bbox ` {..<n} \<union> Center ` {..<n}"
  by (auto simp: loop_assignments_def)

lemma compute_as_schedule:
  assumes "n \<le> length ps"
  shows "compute_bounding_boxes_and_centers bb ce b0 c0 ps n =
    Inr (run_schedule bb ce (loop_assignments n) (allocate b0 c0 ps n))"
  using assms
  by (simp add: compute_bounding_boxes_and_centers_def extraction_loop_fold run_schedule_def
      loop_assignments_def allocate_def)

lemma run_loop_assignments:
  assumes "n \<le> length ps"
  shows "run_schedule bb ce (loop_assignments n) (allocate b0 c0 ps n) =
    \<lparr>primitives = ps, bboxes = map bb (take n ps), centers = map ce (take n ps)\<rparr>"
proof (rule memory_eqI)
  show "primitives (run_schedule bb ce (loop_assignments n) (allocate b0 c0 ps n)) =
      primitives \<lparr>primitives = ps, bboxes = map bb (take n ps), centers = map ce (take n ps)\<rparr>"
    by (simp add: run_schedule_def primitives_fold_exec allocate_def)
  show "bboxes (run_schedule bb ce (loop_assignments n) (allocate b0 c0 ps n)) =
      bboxes \<lparr>primitives = ps, bboxes = map bb (take n ps), centers = map ce (take n ps)\<rparr>"
    using assms
    by (intro nth_equalityI)
       (simp_all add: run_schedule_def length_fold_exec bboxes_fold_exec allocate_def
          set_loop_assignments)
  show "centers (run_schedule bb ce (loop_assignments n) (allocate b0 c0 ps n)) =
      centers \<lparr>primitives = ps, bboxes = map bb (take n ps), centers = map ce (take n ps)\<rparr>"
    using assms
    by (intro nth_equalityI)
       (simp_all add: run_schedule_def length_fold_exec centers_fold_exec allocate_def
          set_loop_assignments)
qed

lemma compute_result:
  assumes "n \<le> length ps"
  shows "compute_bounding_boxes_and_centers bb ce b0 c0 ps n =
    Inr \<lparr>primitives = ps, bboxes = map bb (take n ps), centers = map ce (take n ps)\<rparr>"
  using assms by (simp add: compute_as_schedule run_loop_assignments)

text \<open>
  Claim C4: for an array of \<open>count\<close> primitives the call returns two new arrays of length
  \<open>count\<close> with \<open>boxes[i] = primitives[i].bounding_box()\<close> and
  \<open>centers[i] = primitives[i].center()\<close> for every \<open>i\<close>, and leaves the input array as it
  was.
\<close>

theorem extraction_correct:
  assumes "primitive_count \<le> length ps"
  shows "\<exists>m. compute_bounding_boxes_and_centers bounding_box center box0 center0 ps primitive_count
        = Inr m
    \<and> primitives m = ps
    \<and> length (bboxes m) = primitive_count \<and> length (centers m) = primitive_count
    \<and> (\<forall>i<primitive_count. bboxes m ! i = bounding_box (ps ! i)
          \<and> centers m ! i = center (ps ! i))"
  using assms by (simp add: compute_result)

theorem extraction_correct_witness:
  "(3 :: nat) \<le> length [1, 5, 7 :: int]
   \<and> (\<exists>m. compute_bounding_boxes_and_centers (\<lambda>p. (p - 1, p + 1)) (\<lambda>p. 2 * p) (0, 0) 0
             [1, 5, 7 :: int] 3 = Inr m
        \<and> primitives m = [1, 5, 7]
        \<and> length (bboxes m) = 3 \<and> length (centers m) = 3
        \<and> (\<forall>i<3. bboxes m ! i = ([1, 5, 7] ! i - 1, [1, 5, 7] ! i + 1)
              \<and> centers m ! i = 2 * [1, 5, 7] ! i))"
proof -
  have h: "(3 :: nat) \<le> length [1, 5, 7 :: int]" by simp
  from extraction_correct [OF h, of "\<lambda>p. (p - 1, p + 1)" "\<lambda>p. 2 * p" "(0, 0)" 0] h
  show ?thesis by simp
qed

text \<open>
  Claim C7: each output slot depends only on the primitive at its own index: for two input
  arrays of the same length that agree at index \<open>i\<close>, the two runs produce the same
  \<open>boxes[i]\<close> and the same \<open>centers[i]\<close>. And the order of execution does not matter:
  running the assignments of the loop in any order, as a parallel schedule of the loop
  does, produces the arrays that the sequential loop produces.
\<close>

theorem extraction_independent:
  assumes "primitive_count \<le> length ps" and "length qs = length ps"
    and "i < primitive_count" and "ps ! i = qs ! i"
    and "mset schedule = mset (loop_assignments primitive_count)"
  shows "(\<exists>m m'. compute_bounding_boxes_and_centers bounding_box center box0 center0 ps
                  primitive_count = Inr m
          \<and> compute_bounding_boxes_and_centers bounding_box center box0 center0 qs
                  primitive_count = Inr m'
          \<and> bboxes m ! i = bboxes m' ! i \<and> centers m ! i = centers m' ! i)
    \<and> compute_bounding_boxes_and_centers bounding_box center box0 center0 ps primitive_count
        = Inr (run_schedule bounding_box center schedule
                 (allocate box0 center0 ps primitive_count))"
proof -
  from assms(5) have "set schedule = set (loop_assignments primitive_count)"
    by (rule mset_eq_setD)
  then have "run_schedule bounding_box center schedule (allocate box0 center0 ps primitive_count)
    = run_schedule bounding_box center (loop_assignments primitive_count)
        (allocate box0 center0 ps primitive_count)"
    unfolding run_schedule_def by (rule fold_exec_cong_set)
  with assms(1) have "compute_bounding_boxes_and_centers bounding_box center box0 center0 ps
      primitive_count
    = Inr (run_schedule bounding_box center schedule (allocate box0 center0 ps primitive_count))"
    by (simp add: compute_as_schedule)
  moreover from assms(1-4) have "\<exists>m m'.
      compute_bounding_boxes_and_centers bounding_box center box0 center0 ps primitive_count = Inr m
      \<and> compute_bounding_boxes_and_centers bounding_box center box0 center0 qs
            primitive_count = Inr m'
      \<and> bboxes m ! i = bboxes m' ! i \<and> centers m ! i = centers m' ! i"
    by (simp add: compute_result)
  ultimately show ?thesis by simp
qed

lemma loop_assignments_3:
  "loop_assignments 3 = [Bbox 0, Center 0, Bbox 1, Center 1, Bbox 2, Center 2]"
  by (simp add: loop_assignments_def upt_rec)

theorem extraction_independent_witness:
  "(3 :: nat) \<le> length [1, 5, 7 :: int] \<and> length [2, 5, 9 :: int] = length [1, 5, 7 :: int]
   \<and> (1 :: nat) < 3 \<and> [1, 5, 7 :: int] ! 1 = [2, 5, 9] ! 1
   \<and> mset [Center 2, Bbox 0, Center 1, Bbox 2, Bbox 1, Center 0] = mset (loop_assignments 3)
   \<and> compute_bounding_boxes_and_centers (\<lambda>p. (p - 1, p + 1)) (\<lambda>p. 2 * p) (0, 0) 0
        [1, 5, 7 :: int] 3
      = Inr (run_schedule (\<lambda>p. (p - 1, p + 1)) (\<lambda>p. 2 * p)
               [Center 2, Bbox 0, Center 1, Bbox 2, Bbox 1, Center 0]
               (allocate (0, 0) 0 [1, 5, 7] 3))
   \<and> run_schedule (\<lambda>p. (p - 1, p + 1)) (\<lambda>p. 2 * p)
        [Center 2, Bbox 0, Center 1, Bbox 2, Bbox 1, Center 0] (allocate (0, 0) 0 [1, 5, 7 :: int] 3)
      = \<lparr>primitives = [1, 5, 7], bboxes = [(0, 2), (4, 6), (6, 8)], centers = [2, 10, 14]\<rparr>"
proof -
  have h: "(3 :: nat) \<le> length [1, 5, 7 :: int]" "length [2, 5, 9 :: int] = length [1, 5, 7 :: int]"
    "(1 :: nat) < 3" "[1, 5, 7 :: int] ! 1 = [2, 5, 9] ! 1"
    "mset [Center 2, Bbox 0, Center 1, Bbox 2, Bbox 1, Center 0] = mset (loop_assignments 3)"
    by (simp_all add: loop_assignments_3)
  have r: "run_schedule (\<lambda>p. (p - 1, p + 1)) (\<lambda>p. 2 * p)
        [Center 2, Bbox 0, Center 1, Bbox 2, Bbox 1, Center 0] (allocate (0, 0) 0 [1, 5, 7 :: int] 3)
      = \<lparr>primitives = [1, 5, 7], bboxes = [(0, 2), (4, 6), (6, 8)], centers = [2, 10, 14]\<rparr>"
    by (simp add: run_schedule_def allocate_def numeral_3_eq_3 numeral_2_eq_2)
  from extraction_independent [OF h, of "\<lambda>p. (p - 1, p + 1)" "\<lambda>p. 2 * p" "(0, 0)" 0] h r
  show ?thesis by simp
qed

end
